theory Spec2Isabelle
  imports Main "HOL-Library.Sublist" "HOL-Library.Multiset"
begin

section \<open>The CVPR 2024 paper scraper (\<open>src/scrape_cvpr/cvpr2024_scraper.py\<close>)\<close>

text \<open>
  The scraper walks a parsed HTML document, builds one dictionary per paper, optionally
  visits each paper's detail page, and writes the records to a CSV file. The embedding
  below follows the Python source function by function.

  \<^item> Python strings are \<open>string\<close>; a character stands for one code point below 256.
  \<^item> A parsed document is a tree of elements and text nodes. Every element carries an
    object identity, because \<open>scrape_papers\<close> holds references to title nodes while it
    moves nodes out of the document.
  \<^item> A paper dictionary has at most the six keys the scraper ever writes; it is a record of
    optional fields, \<open>None\<close> standing for an absent key. The dictionaries of a list are
    distinct objects, as the listing pass makes them, so the in-place updates of the
    enrichment pass are updates of the list element.
  \<^item> \<open>urljoin\<close> and the HTTP session are library code. \<open>urljoin\<close> is a parameter that may
    raise (\<open>None\<close>); \<open>fetch_page\<close> is a parameter over an abstract state of the network that
    returns a document or \<open>None\<close>, exactly as the source's \<open>Optional[BeautifulSoup]\<close>.
  \<^item> Logging and \<open>time.sleep\<close> have no effect on any value and are left out.
\<close>

subsection \<open>Python string operations\<close>

text \<open>\<open>str.isspace\<close> on the code points below 256.\<close>

definition is_space :: "char \<Rightarrow> bool" where
  "is_space c = (of_char c \<in> {9, 10, 11, 12, 13, 28, 29, 30, 31, 32, 133, 160 :: nat})"

text \<open>\<open>s.strip()\<close>\<close>

definition strip :: "string \<Rightarrow> string" where
  "strip s = rev (dropWhile is_space (rev (dropWhile is_space s)))"

text \<open>Case folding of the ASCII letters, for the \<open>re.I\<close> patterns (all of them ASCII words).\<close>

definition lower_char :: "char \<Rightarrow> char" where
  "lower_char c = (let n = (of_char c :: nat) in if 65 \<le> n \<and> n \<le> 90 then char_of (n + 32) else c)"

definition lower :: "string \<Rightarrow> string" where
  "lower s = map lower_char s"

text \<open>
  \<open>s.replace(old, new)\<close>: every non-overlapping occurrence of \<open>old\<close>, scanning from the left.
  For an empty \<open>old\<close> Python inserts \<open>new\<close> before every character and at the end.
\<close>

function str_replace :: "string \<Rightarrow> string \<Rightarrow> string \<Rightarrow> string" where
  "str_replace old new [] = (if old = [] then new else [])"
| "str_replace old new (c # cs) =
     (if old = [] then new @ c # str_replace old new cs
      else if prefix old (c # cs) then new @ str_replace old new (drop (length old) (c # cs))
      else c # str_replace old new cs)"
  by pat_completeness auto
termination
  by (relation "measure (\<lambda>(old, new, s). length s)") (auto simp: neq_Nil_conv)

text \<open>
  \<open>s.split(sep, 1)\<close> for a non-empty \<open>sep\<close>: the text before and after the first occurrence,
  or the text alone when there is none.
\<close>

fun split_once_from :: "string \<Rightarrow> string \<Rightarrow> string \<Rightarrow> string list" where
  "split_once_from sep cur [] = [cur]"
| "split_once_from sep cur (c # cs) =
     (if prefix sep (c # cs) then [cur, drop (length sep) (c # cs)]
      else split_once_from sep (cur @ [c]) cs)"

definition split_once :: "string \<Rightarrow> string \<Rightarrow> string list" where
  "split_once sep s = split_once_from sep [] s"

text \<open>\<open>s.split(sep)\<close> for a non-empty \<open>sep\<close>.\<close>

function split_from :: "string \<Rightarrow> string \<Rightarrow> string \<Rightarrow> string list" where
  "split_from sep cur [] = [cur]"
| "split_from sep cur (c # cs) =
     (if sep \<noteq> [] \<and> prefix sep (c # cs)
      then cur # split_from sep [] (drop (length sep) (c # cs))
      else split_from sep (cur @ [c]) cs)"
  by pat_completeness auto
termination
  by (relation "measure (\<lambda>(sep, cur, s). length s)") (auto simp: neq_Nil_conv)

definition py_split :: "string \<Rightarrow> string \<Rightarrow> string list" where
  "py_split sep s = split_from sep [] s"


text \<open>Truthiness of \<open>d.get(key)\<close> for a string-valued key: absent and empty are both false.\<close>

definition truthy :: "string option \<Rightarrow> bool" where
  "truthy v = (case v of None \<Rightarrow> False | Some s \<Rightarrow> s \<noteq> [])"

subsection \<open>The parsed document\<close>

text \<open>
  \<open>Elem i tag attrs children\<close> is a tag object with identity \<open>i\<close>; \<open>Text s\<close> is a
  \<open>NavigableString\<close>. Comments and the strings inside script and style elements are visible
  to none of the operations the scraper uses and are not represented.
\<close>

datatype node = Text string | Elem nat string "(string \<times> string) list" "node list"

fun descendants :: "node \<Rightarrow> node list" where
  "descendants (Text s) = []"
| "descendants (Elem i t a cs) = concat (map (\<lambda>c. c # descendants c) cs)"

fun is_tag :: "string \<Rightarrow> node \<Rightarrow> bool" where
  "is_tag t (Text s) = False"
| "is_tag t (Elem i t' a cs) = (t' = t)"

fun get_attr :: "string \<Rightarrow> node \<Rightarrow> string option" where
  "get_attr k (Text s) = None"
| "get_attr k (Elem i t a cs) = map_of a k"

text \<open>\<open>tag.find_all(name)\<close> and \<open>tag.find(name)\<close>: the descendants in document order.\<close>

definition find_all :: "string \<Rightarrow> node \<Rightarrow> node list" where
  "find_all t n = filter (is_tag t) (descendants n)"

definition find_where :: "(node \<Rightarrow> bool) \<Rightarrow> node \<Rightarrow> node option" where
  "find_where P n = (case filter P (descendants n) of [] \<Rightarrow> None | x # xs \<Rightarrow> Some x)"

definition find_tag :: "string \<Rightarrow> node \<Rightarrow> node option" where
  "find_tag t n = find_where (is_tag t) n"

text \<open>
  \<open>tag.find(name, attr=pattern)\<close>: the attribute must be present and satisfy the pattern.
\<close>

definition attr_matches :: "string \<Rightarrow> (string \<Rightarrow> bool) \<Rightarrow> node \<Rightarrow> bool" where
  "attr_matches k P n = (case get_attr k n of None \<Rightarrow> False | Some v \<Rightarrow> P v)"

definition find_tag_attr :: "string \<Rightarrow> string \<Rightarrow> (string \<Rightarrow> bool) \<Rightarrow> node \<Rightarrow> node option" where
  "find_tag_attr t k P n = find_where (\<lambda>x. is_tag t x \<and> attr_matches k P x) n"

text \<open>
  \<open>tag.get_text(strip=True)\<close>: every descendant string is stripped, the empty ones are
  dropped, and the rest are concatenated with no separator.
\<close>

fun node_string :: "node \<Rightarrow> string list" where
  "node_string (Text s) = [s]"
| "node_string (Elem i t a cs) = []"

definition get_text_strip :: "node \<Rightarrow> string" where
  "get_text_strip n =
     concat (filter (\<lambda>s. s \<noteq> []) (map strip (concat (map node_string (descendants n)))))"

text \<open>The three regular expressions of the source, as predicates on the searched string.\<close>

text \<open>\<open>re.compile(r'\.pdf$')\<close>: \<open>$\<close> matches at the end and before a final newline.\<close>

definition re_pdf :: "string \<Rightarrow> bool" where
  "re_pdf s = (suffix ''.pdf'' s \<or> suffix (''.pdf'' @ [CHR 0x0A]) s)"

text \<open>\<open>re.compile(r'supplemental|supplementary', re.I)\<close>\<close>

definition re_supp :: "string \<Rightarrow> bool" where
  "re_supp s = (sublist ''supplemental'' (lower s) \<or> sublist ''supplementary'' (lower s))"

text \<open>
  \<open>re.compile(r'abstract', re.I)\<close> against a \<open>class\<close> attribute. The parser splits the
  attribute at white space and the pattern is tried on every token; the pattern holds no
  white space, so it is found in a token exactly when it is found in the attribute.
\<close>

definition re_abstract :: "string \<Rightarrow> bool" where
  "re_abstract s = sublist ''abstract'' (lower s)"

subsection \<open>Paper records\<close>

record paper =
  title :: "string option"
  paper_url :: "string option"
  authors :: "string list option"
  pdf_url :: "string option"
  supplementary_url :: "string option"
  abstract :: "string option"

text \<open>The field \<open>paper_url\<close> is the dictionary key \<open>_paper_url\<close>.\<close>

definition empty_paper :: paper where
  "empty_paper = \<lparr>title = None, paper_url = None, authors = None, pdf_url = None,
                   supplementary_url = None, abstract = None\<rparr>"

datatype error = UrljoinRaised

definition BASE :: string where
  "BASE = ''https://openaccess.thecvf.com/''"

subsection \<open>\<open>enrich_paper_details\<close>\<close>

text \<open>Lines 166-169: the stashed URL, else one derived from \<open>pdf_url\<close>.\<close>

definition determine_paper_url :: "paper \<Rightarrow> string option" where
  "determine_paper_url p =
     (if \<not> truthy (paper_url p) \<and> truthy (pdf_url p)
      then (case pdf_url p of
              Some u \<Rightarrow> Some (str_replace ''.pdf'' ''.html'' (str_replace ''/papers/'' ''/'' u))
            | None \<Rightarrow> paper_url p)
      else paper_url p)"

text \<open>Lines 175-177: \<open>div\<close> with \<open>id='abstract'\<close>, else \<open>div\<close> with a matching class.\<close>

definition find_abstract :: "node \<Rightarrow> node option" where
  "find_abstract soup =
     (case find_tag_attr ''div'' ''id'' (\<lambda>v. v = ''abstract'') soup of
        Some e \<Rightarrow> Some e
      | None \<Rightarrow> find_tag_attr ''div'' ''class'' re_abstract soup)"

text \<open>Lines 178-179.\<close>

definition set_abstract :: "node \<Rightarrow> paper \<Rightarrow> paper" where
  "set_abstract soup p =
     (case find_abstract soup of
        Some e \<Rightarrow> p\<lparr>abstract := Some (get_text_strip e)\<rparr>
      | None \<Rightarrow> p)"

text \<open>Lines 182-187. \<open>urljoin\<close> is not guarded here: when it raises, so does the pass.\<close>

definition fill_pdf_url :: "(string \<Rightarrow> string \<Rightarrow> string option) \<Rightarrow> node \<Rightarrow> paper \<Rightarrow> error + paper" where
  "fill_pdf_url urljoin soup p =
     (if \<not> truthy (pdf_url p)
      then (case find_tag_attr ''a'' ''href'' re_pdf soup of
              None \<Rightarrow> Inr p
            | Some pdf_link \<Rightarrow>
                (case get_attr ''href'' pdf_link of
                   None \<Rightarrow> Inr p
                 | Some href \<Rightarrow>
                     if href \<noteq> []
                     then (case urljoin BASE href of
                             None \<Rightarrow> Inl UrljoinRaised
                           | Some u \<Rightarrow> Inr (p\<lparr>pdf_url := Some u\<rparr>))
                     else Inr p))
      else Inr p)"

text \<open>Lines 190-191.\<close>

definition drop_paper_url :: "paper \<Rightarrow> paper" where
  "drop_paper_url p = p\<lparr>paper_url := None\<rparr>"

text \<open>One iteration of the loop, lines 165-191.\<close>

definition enrich_one ::
  "(string \<Rightarrow> string \<Rightarrow> string option) \<Rightarrow> ('w \<Rightarrow> string \<Rightarrow> node option \<times> 'w) \<Rightarrow> 'w \<Rightarrow> paper
     \<Rightarrow> error + (paper \<times> 'w)" where
  "enrich_one urljoin fetch_page w p =
     (if truthy (determine_paper_url p)
      then (case determine_paper_url p of
              None \<Rightarrow> Inr (drop_paper_url p, w)
            | Some url \<Rightarrow>
               (case fetch_page w url of
                  (None, w') \<Rightarrow> Inr (drop_paper_url p, w')
                | (Some soup, w') \<Rightarrow>
                    (case fill_pdf_url urljoin soup (set_abstract soup p) of
                       Inl e \<Rightarrow> Inl e
                     | Inr p' \<Rightarrow> Inr (drop_paper_url p', w'))))
      else Inr (drop_paper_url p, w))"

text \<open>The loop, with \<open>enriched_papers\<close> as the accumulator.\<close>

fun enrich_loop ::
  "(string \<Rightarrow> string \<Rightarrow> string option) \<Rightarrow> ('w \<Rightarrow> string \<Rightarrow> node option \<times> 'w) \<Rightarrow> 'w \<Rightarrow> paper list
     \<Rightarrow> paper list \<Rightarrow> error + (paper list \<times> 'w)" where
  "enrich_loop urljoin fetch_page w [] enriched_papers = Inr (enriched_papers, w)"
| "enrich_loop urljoin fetch_page w (p # papers) enriched_papers =
     (case enrich_one urljoin fetch_page w p of
        Inl e \<Rightarrow> Inl e
      | Inr (p', w') \<Rightarrow> enrich_loop urljoin fetch_page w' papers (enriched_papers @ [p']))"

definition enrich_paper_details ::
  "(string \<Rightarrow> string \<Rightarrow> string option) \<Rightarrow> ('w \<Rightarrow> string \<Rightarrow> node option \<times> 'w) \<Rightarrow> 'w \<Rightarrow> paper list
     \<Rightarrow> error + (paper list \<times> 'w)" where
  "enrich_paper_details urljoin fetch_page w papers = enrich_loop urljoin fetch_page w papers []"

subsection \<open>\<open>extract_paper_info\<close>\<close>

text \<open>
  The body of \<open>extract_paper_info\<close> runs inside \<open>try\<close>; the handler returns \<open>None\<close>. The only
  call of the body that can raise on a parsed tree is \<open>urljoin\<close>, so each step below yields
  \<open>None\<close> exactly when \<open>urljoin\<close> raised in it.
\<close>

text \<open>Lines 53-66.\<close>

definition extract_title :: "(string \<Rightarrow> string \<Rightarrow> string option) \<Rightarrow> node \<Rightarrow> paper \<Rightarrow> paper option" where
  "extract_title urljoin paper_element paper_info =
     (case find_tag ''dt'' paper_element of
        None \<Rightarrow> Some paper_info
      | Some title_elem \<Rightarrow>
          (case find_tag ''a'' title_elem of
             Some title_link \<Rightarrow>
               (let info = paper_info\<lparr>title := Some (get_text_strip title_link)\<rparr>;
                    href = (case get_attr ''href'' title_link of None \<Rightarrow> [] | Some h \<Rightarrow> h)
                in if href \<noteq> []
                   then (case urljoin BASE href of
                           None \<Rightarrow> None
                         | Some u \<Rightarrow> Some (info\<lparr>paper_url := Some u\<rparr>))
                   else Some info)
           | None \<Rightarrow>
               (let title_text = get_text_strip title_elem
                in if title_text \<noteq> [] then Some (paper_info\<lparr>title := Some title_text\<rparr>)
                   else Some paper_info)))"

text \<open>
  Lines 79-82: the first of the labels that occurs anywhere in the text is cut off together
  with everything before it; \<open>split(prefix, 1)[-1]\<close> is the text after its first occurrence.
\<close>

fun strip_prefixes :: "string list \<Rightarrow> string \<Rightarrow> string" where
  "strip_prefixes [] author_text = author_text"
| "strip_prefixes (pre # rest) author_text =
     (if sublist pre author_text then strip (last (split_once pre author_text))
      else strip_prefixes rest author_text)"

text \<open>Lines 69-86.\<close>

definition extract_authors :: "node \<Rightarrow> paper \<Rightarrow> paper" where
  "extract_authors paper_element paper_info =
     (case find_tag ''dd'' paper_element of
        None \<Rightarrow> paper_info
      | Some authors_elem \<Rightarrow>
          (let author_links = find_all ''a'' authors_elem
           in if author_links \<noteq> []
              then paper_info\<lparr>authors := Some (map get_text_strip author_links)\<rparr>
              else (let author_text =
                          strip_prefixes [''Authors:'', ''Author:'', ''By:''] (get_text_strip authors_elem)
                    in if author_text \<noteq> []
                       then paper_info\<lparr>authors := Some (map strip (py_split '','' author_text))\<rparr>
                       else paper_info)))"

text \<open>
  Lines 89-93 and 96-100: the first link whose \<open>href\<close> matches, resolved against the site.
  The outer \<open>None\<close> is a raise; \<open>Some None\<close> leaves the key unset.
\<close>

definition extract_link ::
  "(string \<Rightarrow> string \<Rightarrow> string option) \<Rightarrow> (string \<Rightarrow> bool) \<Rightarrow> node \<Rightarrow> string option option" where
  "extract_link urljoin pattern paper_element =
     (case find_tag_attr ''a'' ''href'' pattern paper_element of
        None \<Rightarrow> Some None
      | Some link \<Rightarrow>
          (case get_attr ''href'' link of
             None \<Rightarrow> Some None
           | Some href \<Rightarrow>
               if href \<noteq> []
               then (case urljoin BASE href of None \<Rightarrow> None | Some u \<Rightarrow> Some (Some u))
               else Some None))"

definition extract_paper_info :: "(string \<Rightarrow> string \<Rightarrow> string option) \<Rightarrow> node \<Rightarrow> paper option" where
  "extract_paper_info urljoin paper_element =
     (case extract_title urljoin paper_element empty_paper of
        None \<Rightarrow> None
      | Some info1 \<Rightarrow>
          (let info2 = extract_authors paper_element info1
           in case extract_link urljoin re_pdf paper_element of
                None \<Rightarrow> None
              | Some pdf \<Rightarrow>
                  (let info3 = (case pdf of None \<Rightarrow> info2 | Some u \<Rightarrow> info2\<lparr>pdf_url := Some u\<rparr>)
                   in case extract_link urljoin re_supp paper_element of
                        None \<Rightarrow> None
                      | Some supp \<Rightarrow>
                          (let info4 = (case supp of None \<Rightarrow> info3
                                        | Some u \<Rightarrow> info3\<lparr>supplementary_url := Some u\<rparr>)
                           in if truthy (title info4) then Some info4 else None))))"

subsection \<open>The listing pass of \<open>scrape_papers\<close>\<close>

text \<open>
  \<open>dt_elements\<close> is a list of references into the document, and every iteration moves the
  title node and its detail node out of the document into a fresh \<open>div\<close>
  (\<open>wrapper.append\<close> detaches a node from its parent). The state of the pass is therefore
  a store of trees: the document first, then the wrappers made so far. A reference is the
  identity of an element.
\<close>

fun node_id :: "node \<Rightarrow> nat option" where
  "node_id (Text s) = None"
| "node_id (Elem i t a cs) = Some i"

fun ids :: "node \<Rightarrow> nat list" where
  "ids (Text s) = []"
| "ids (Elem i t a cs) = i # concat (map ids cs)"

definition store_ids :: "node list \<Rightarrow> nat list" where
  "store_ids F = concat (map ids F)"

text \<open>The element a reference points to.\<close>

fun lookup_node :: "nat \<Rightarrow> node \<Rightarrow> node option"
  and lookup_list :: "nat \<Rightarrow> node list \<Rightarrow> node option" where
  "lookup_node i (Text s) = None"
| "lookup_node i (Elem j t a cs) = (if i = j then Some (Elem j t a cs) else lookup_list i cs)"
| "lookup_list i [] = None"
| "lookup_list i (c # cs) =
     (case lookup_node i c of Some n \<Rightarrow> Some n | None \<Rightarrow> lookup_list i cs)"

text \<open>\<open>tag.next_siblings\<close>: the children of the parent that follow the element.\<close>

fun siblings_after :: "nat \<Rightarrow> node list \<Rightarrow> node list option" where
  "siblings_after i [] = None"
| "siblings_after i (c # cs) = (if node_id c = Some i then Some cs else siblings_after i cs)"

fun next_siblings :: "nat \<Rightarrow> node \<Rightarrow> node list option"
  and next_siblings_list :: "nat \<Rightarrow> node list \<Rightarrow> node list option" where
  "next_siblings i (Text s) = None"
| "next_siblings i (Elem j t a cs) =
     (case siblings_after i cs of Some r \<Rightarrow> Some r | None \<Rightarrow> next_siblings_list i cs)"
| "next_siblings_list i [] = None"
| "next_siblings_list i (c # cs) =
     (case next_siblings i c of Some r \<Rightarrow> Some r | None \<Rightarrow> next_siblings_list i cs)"

text \<open>\<open>tag.find_next_sibling(name)\<close>\<close>

definition find_next_sibling :: "nat \<Rightarrow> string \<Rightarrow> node list \<Rightarrow> node option" where
  "find_next_sibling i t F =
     (case next_siblings_list i F of
        None \<Rightarrow> None
      | Some sibs \<Rightarrow> (case filter (is_tag t) sibs of [] \<Rightarrow> None | x # xs \<Rightarrow> Some x))"

text \<open>\<open>tag.extract()\<close>: the element leaves the children of its parent.\<close>

fun remove_node :: "nat \<Rightarrow> node \<Rightarrow> node" where
  "remove_node i (Text s) = Text s"
| "remove_node i (Elem j t a cs) =
     Elem j t a (map (remove_node i) (filter (\<lambda>c. node_id c \<noteq> Some i) cs))"

definition detach :: "node \<Rightarrow> node list \<Rightarrow> node list" where
  "detach n F = (case node_id n of None \<Rightarrow> F | Some i \<Rightarrow> map (remove_node i) F)"

text \<open>\<open>soup.new_tag('div')\<close> is a new object: its identity is none of the store's.\<close>

definition fresh_id :: "node list \<Rightarrow> nat" where
  "fresh_id F = Suc (fold max (store_ids F) 0)"

text \<open>
  Lines 132-138 for the title node \<open>dt\<close>: the wrapper and the store after the two moves.
  A reference obtained from \<open>find_all\<close> always points into the store; the case \<open>None\<close> of
  the lookup is there for totality only.
\<close>

definition wrap_entry :: "nat \<Rightarrow> node list \<Rightarrow> node \<times> node list" where
  "wrap_entry dt F =
     (let dd_elem = find_next_sibling dt ''dd'' F;
          dt_elem = lookup_list dt F;
          w = fresh_id F;
          F1 = (case dt_elem of None \<Rightarrow> F | Some n \<Rightarrow> detach n F);
          c1 = (case dt_elem of None \<Rightarrow> [] | Some n \<Rightarrow> [n]);
          F2 = (case dd_elem of None \<Rightarrow> F1 | Some n \<Rightarrow> detach n F1);
          c2 = (case dd_elem of None \<Rightarrow> c1 | Some n \<Rightarrow> c1 @ [n]);
          wrapper = Elem w ''div'' [] c2
      in (wrapper, F2 @ [wrapper]))"

text \<open>
  Lines 125-148: the loop over \<open>dt_elements\<close>, with the list \<open>papers\<close> and the store as
  its state. The test of the cap comes first in the body, before the title node is touched.
\<close>

fun listing_loop ::
  "(string \<Rightarrow> string \<Rightarrow> string option) \<Rightarrow> int \<Rightarrow> nat list \<Rightarrow> node list \<Rightarrow> paper list
     \<Rightarrow> paper list \<times> node list" where
  "listing_loop urljoin max_papers [] F papers = (papers, F)"
| "listing_loop urljoin max_papers (dt # dt_elements) F papers =
     (if int (length papers) \<ge> max_papers then (papers, F)
      else (case wrap_entry dt F of
              (wrapper, F') \<Rightarrow>
                (case extract_paper_info urljoin wrapper of
                   Some paper_info \<Rightarrow> listing_loop urljoin max_papers dt_elements F' (papers @ [paper_info])
                 | None \<Rightarrow> listing_loop urljoin max_papers dt_elements F' papers)))"

text \<open>Lines 121-148 on a fetched document.\<close>

definition listing_pass ::
  "(string \<Rightarrow> string \<Rightarrow> string option) \<Rightarrow> int \<Rightarrow> node \<Rightarrow> paper list \<times> node list" where
  "listing_pass urljoin max_papers soup =
     listing_loop urljoin max_papers (List.map_filter node_id (find_all ''dt'' soup)) [soup] []"

subsection \<open>\<open>scrape_papers\<close>\<close>

record scraper =
  base_url :: string
  fetch_abstracts :: bool
  max_papers :: int
  papers :: "paper list"

text \<open>\<open>__init__\<close>\<close>

definition init_scraper :: "string \<Rightarrow> bool \<Rightarrow> int \<Rightarrow> scraper" where
  "init_scraper url fa mp = \<lparr>base_url = url, fetch_abstracts = fa, max_papers = mp, papers = []\<rparr>"

text \<open>
  Lines 108-158. The result is the returned list, the scraper afterwards and the state of
  the network; \<open>Inl\<close> is a raise out of the enrichment pass.
\<close>

definition scrape_papers ::
  "(string \<Rightarrow> string \<Rightarrow> string option) \<Rightarrow> ('w \<Rightarrow> string \<Rightarrow> node option \<times> 'w) \<Rightarrow> scraper \<Rightarrow> 'w
     \<Rightarrow> error + (paper list \<times> scraper \<times> 'w)" where
  "scrape_papers urljoin fetch_page self w =
     (case fetch_page w (base_url self) of
        (None, w1) \<Rightarrow> Inr ([], self, w1)
      | (Some soup, w1) \<Rightarrow>
          (let found = fst (listing_pass urljoin (max_papers self) soup)
           in if found \<noteq> [] \<and> fetch_abstracts self
              then (case enrich_paper_details urljoin fetch_page w1 found of
                      Inl e \<Rightarrow> Inl e
                    | Inr (enriched, w2) \<Rightarrow> Inr (enriched, self\<lparr>papers := enriched\<rparr>, w2))
              else Inr (found, self\<lparr>papers := found\<rparr>, w1)))"

subsection \<open>Listing documents made of title/detail pairs\<close>

text \<open>
  The statements about the listing pass speak of documents whose title nodes are the
  children of one element (the \<open>dl\<close> of the listing, somewhere below the root), each
  followed by its detail node. An entry is \<open>(dt, between, dd, after)\<close>: the title node, the
  nodes between it and its detail node (white space, as a rule), the detail node, and what
  follows up to the next title node (a real listing has a second \<open>dd\<close> with the links of
  the paper there).
\<close>

type_synonym entry = "node \<times> node list \<times> node \<times> node list"

text \<open>A node that neither is nor holds a title node.\<close>

definition inert :: "node \<Rightarrow> bool" where
  "inert n = (\<not> is_tag ''dt'' n \<and> find_all ''dt'' n = [])"

text \<open>Every \<open>href\<close> among the links below a node is one \<open>urljoin\<close> resolves.\<close>

definition links_resolve :: "(string \<Rightarrow> string \<Rightarrow> string option) \<Rightarrow> node \<Rightarrow> bool" where
  "links_resolve urljoin n =
     list_all (\<lambda>a. case get_attr ''href'' a of None \<Rightarrow> True | Some h \<Rightarrow> urljoin BASE h \<noteq> None)
       (find_all ''a'' n)"

text \<open>
  A well-formed pair: a \<open>dt\<close> element whose title text (the text of its first link, or its
  own text when it has no link) is not empty, and a \<open>dd\<close> element; neither holds a further
  title node, and their links resolve.
\<close>

definition well_formed_pair :: "(string \<Rightarrow> string \<Rightarrow> string option) \<Rightarrow> node \<Rightarrow> node \<Rightarrow> bool" where
  "well_formed_pair urljoin dt dd =
     (is_tag ''dt'' dt \<and> is_tag ''dd'' dd \<and> find_all ''dt'' dt = [] \<and> find_all ''dt'' dd = [] \<and>
      (case find_tag ''a'' dt of
         Some title_link \<Rightarrow> get_text_strip title_link \<noteq> []
       | None \<Rightarrow> get_text_strip dt \<noteq> []) \<and>
      links_resolve urljoin dt \<and> links_resolve urljoin dd)"

fun well_formed_entry :: "(string \<Rightarrow> string \<Rightarrow> string option) \<Rightarrow> entry \<Rightarrow> bool" where
  "well_formed_entry urljoin (dt, between, dd, after) =
     (well_formed_pair urljoin dt dd \<and>
      list_all (\<lambda>n. inert n \<and> \<not> is_tag ''dd'' n) between \<and> list_all inert after)"

fun entry_nodes :: "entry \<Rightarrow> node list" where
  "entry_nodes (dt, between, dd, after) = dt # between @ dd # after"

fun entry_rest :: "entry \<Rightarrow> node list" where
  "entry_rest (dt, between, dd, after) = between @ after"

definition listing_children :: "entry list \<Rightarrow> node list" where
  "listing_children es = concat (map entry_nodes es)"

text \<open>The references to the title nodes of a list of entries.\<close>

definition title_refs :: "entry list \<Rightarrow> nat list" where
  "title_refs es = List.map_filter node_id (map fst es)"

text \<open>
  The place of the listing in the document: the path from the root down to the element
  that holds the entries. A frame is an element on that path with the children to the left
  and to the right of the next one.
\<close>

datatype frame = Frame nat string "(string \<times> string) list" "node list" "node list"

fun plug :: "frame list \<Rightarrow> node \<Rightarrow> node" where
  "plug [] n = n"
| "plug (Frame i t a left right # ctx) n = Elem i t a (left @ plug ctx n # right)"

fun frame_ids :: "frame \<Rightarrow> nat list" where
  "frame_ids (Frame i t a left right) = i # store_ids left @ store_ids right"

definition ctx_ids :: "frame list \<Rightarrow> nat list" where
  "ctx_ids ctx = concat (map frame_ids ctx)"

text \<open>Nothing on the path or beside it is a title node or holds one.\<close>

fun frame_inert :: "frame \<Rightarrow> bool" where
  "frame_inert (Frame i t a left right) = (t \<noteq> ''dt'' \<and> list_all inert left \<and> list_all inert right)"

subsection \<open>\<open>save_to_csv\<close> and the \<open>csv\<close> module\<close>

text \<open>
  \<open>csv.DictWriter\<close> with the default dialect (\<open>excel\<close>): delimiter \<open>,\<close>, quote character
  \<open>"\<close> doubled inside a quoted field, \<open>QUOTE_MINIMAL\<close>, line terminator \<open>\r\n\<close>, no escape
  character. A field is quoted when it holds the delimiter, the quote character or a
  character of the line terminator.
\<close>

definition DQ :: char where "DQ = CHR 0x22"
definition CR :: char where "CR = CHR 0x0D"
definition LF :: char where "LF = CHR 0x0A"























subsection \<open>Example inputs\<close>

text \<open>
  Concrete inputs for the statements below. \<open>join_url\<close> stands for a \<open>urljoin\<close> that never
  raises; the fetchers ignore the state of the network.
\<close>

definition join_url :: "string \<Rightarrow> string \<Rightarrow> string option" where
  "join_url b h = Some (b @ h)"

text \<open>A detail page with an abstract container and a link to a \<open>.pdf\<close> file.\<close>

definition page0 :: node where
  "page0 = Elem 0 ''[document]'' []
     [Elem 1 ''div'' [(''class'', ''paper Abstract'')] [Text '' A new abstract. ''],
      Elem 2 ''a'' [(''href'', ''/content/other.pdf'')] [Text ''pdf'']]"

definition fetch_ok :: "unit \<Rightarrow> string \<Rightarrow> node option \<times> unit" where
  "fetch_ok w u = (Some page0, w)"

definition fetch_fail :: "unit \<Rightarrow> string \<Rightarrow> node option \<times> unit" where
  "fetch_fail w u = (None, w)"

text \<open>A record as the listing pass leaves it, with an abstract added.\<close>

definition paper0 :: paper where
  "paper0 = \<lparr>title = Some ''A Title'', paper_url = Some ''https://openaccess.thecvf.com/content/a.html'',
     authors = Some [''A. Smith'', ''B. Lee''], pdf_url = Some ''https://openaccess.thecvf.com/content/papers/a.pdf'',
     supplementary_url = None, abstract = Some ''An old abstract.''\<rparr>"

definition paper_pdf_only :: "string \<Rightarrow> paper" where
  "paper_pdf_only u = empty_paper\<lparr>title := Some ''A Title'', pdf_url := Some u\<rparr>"




text \<open>A wrapper whose detail node has no link and a label inside its text.\<close>

definition wrapper1 :: node where
  "wrapper1 = Elem 9 ''div'' []
     [Elem 1 ''dt'' [] [Text '' A Real Title ''],
      Elem 4 ''dd'' [] [Text ''A. Smith, Posted By: admin'']]"

text \<open>A listing page with two entries.\<close>

definition entry1 :: entry where
  "entry1 =
     (Elem 11 ''dt'' [(''class'', ''ptitle'')] [Elem 12 ''a'' [(''href'', ''/content/a.html'')] [Text ''First Paper'']],
      [Text [CHR 0x0A]],
      Elem 13 ''dd'' [] [Elem 14 ''a'' [(''href'', ''#'')] [Text ''A. Smith''], Text '', '',
                        Elem 15 ''a'' [(''href'', ''#'')] [Text ''B. Lee'']],
      [Text [CHR 0x0A], Elem 16 ''dd'' [] [Elem 17 ''a'' [(''href'', ''/content/papers/a.pdf'')] [Text ''pdf'']]])"

definition entry2 :: entry where
  "entry2 =
     (Elem 18 ''dt'' [] [Text ''Second Paper''],
      [],
      Elem 19 ''dd'' [] [Text ''Authors: C. Wu, D. Kim''],
      [Text [CHR 0x0A]])"

definition page_ctx :: "frame list" where
  "page_ctx =
     [Frame 0 ''[document]'' [] [] [],
      Frame 1 ''html'' [] [Elem 2 ''head'' [] [Elem 3 ''title'' [] [Text ''CVPR 2024'']]] [],
      Frame 4 ''body'' [] [Elem 5 ''h3'' [] [Text ''Papers'']] [Elem 6 ''div'' [(''id'', ''footer'')] []]]"

definition listing0 :: node where
  "listing0 = plug page_ctx (Elem 10 ''dl'' [] ([Text [CHR 0x0A]] @ listing_children [entry1, entry2]))"

text \<open>A page without a title node, and the scraper as \<open>main\<close> creates it.\<close>

definition empty_page :: node where
  "empty_page = Elem 0 ''[document]'' [] [Elem 1 ''p'' [] [Text ''This page has moved.'']]"

definition fetch_empty :: "unit \<Rightarrow> string \<Rightarrow> node option \<times> unit" where
  "fetch_empty w u = (Some empty_page, w)"

definition scraper0 :: scraper where
  "scraper0 = init_scraper ''https://openaccess.thecvf.com/CVPR2024?day=all'' True 100"




section \<open>Properties of the enrichment pass\<close>

lemma fill_pdf_url_Inl: "fill_pdf_url urljoin soup p = Inl e \<Longrightarrow> \<exists>h. urljoin BASE h = None"
  by (auto simp: fill_pdf_url_def split: if_splits option.splits)

lemma fill_pdf_url_frame:
  "fill_pdf_url urljoin soup p = Inr p' \<Longrightarrow> p' = p\<lparr>pdf_url := pdf_url p'\<rparr>"
  by (auto simp: fill_pdf_url_def split: if_splits option.splits)

lemma fill_pdf_url_keeps:
  "fill_pdf_url urljoin soup p = Inr p' \<Longrightarrow> truthy (pdf_url p) \<Longrightarrow> p' = p"
  by (auto simp: fill_pdf_url_def split: if_splits option.splits)


lemma enrich_one_Inl: "enrich_one urljoin fetch_page w p = Inl e \<Longrightarrow> \<exists>h. urljoin BASE h = None"
  by (auto simp: enrich_one_def split: if_splits option.splits prod.splits sum.splits
           dest: fill_pdf_url_Inl)


lemma enrich_loop_Inr:
  "enrich_loop urljoin fetch_page w ps acc = Inr (out, w') \<Longrightarrow>
     \<exists>out'. out = acc @ out' \<and>
       list_all2 (\<lambda>p p'. \<exists>w1 w2. enrich_one urljoin fetch_page w1 p = Inr (p', w2)) ps out'"
proof (induction ps arbitrary: w acc)
  case Nil
  then show ?case by simp
next
  case (Cons p ps)
  from Cons.prems obtain p' w1 where
    one: "enrich_one urljoin fetch_page w p = Inr (p', w1)" and
    rest: "enrich_loop urljoin fetch_page w1 ps (acc @ [p']) = Inr (out, w')"
    by (auto split: sum.splits)
  from Cons.IH[OF rest] obtain out' where
    "out = (acc @ [p']) @ out'"
    "list_all2 (\<lambda>p p'. \<exists>w1 w2. enrich_one urljoin fetch_page w1 p = Inr (p', w2)) ps out'"
    by blast
  with one show ?case
    by (intro exI[of _ "p' # out'"]) auto
qed

lemma enrich_loop_Inl:
  "enrich_loop urljoin fetch_page w ps acc = Inl e \<Longrightarrow> \<exists>h. urljoin BASE h = None"
  by (induction ps arbitrary: w acc) (auto split: sum.splits dest: enrich_one_Inl)

lemma enrich_Inr_nth:
  assumes "enrich_paper_details urljoin fetch_page w ps = Inr (out, w')"
  shows "length out = length ps"
    and "i < length ps \<Longrightarrow> \<exists>w1 w2. enrich_one urljoin fetch_page w1 (ps ! i) = Inr (out ! i, w2)"
proof -
  from assms obtain out' where
    "out = [] @ out'"
    "list_all2 (\<lambda>p p'. \<exists>w1 w2. enrich_one urljoin fetch_page w1 p = Inr (p', w2)) ps out'"
    unfolding enrich_paper_details_def by (blast dest: enrich_loop_Inr)
  then have all2: "list_all2 (\<lambda>p p'. \<exists>w1 w2. enrich_one urljoin fetch_page w1 p = Inr (p', w2)) ps out"
    by simp
  show "length out = length ps"
    using all2 by (simp add: list_all2_lengthD)
  show "\<exists>w1 w2. enrich_one urljoin fetch_page w1 (ps ! i) = Inr (out ! i, w2)" if "i < length ps"
    using list_all2_nthD[OF all2 that] .
qed

lemma enrich_one_keeps_pdf_url:
  "enrich_one urljoin fetch_page w p = Inr (p', w') \<Longrightarrow> truthy (pdf_url p) \<Longrightarrow> pdf_url p' = pdf_url p"
  by (auto simp: enrich_one_def drop_paper_url_def set_abstract_def fill_pdf_url_def
           split: if_splits option.splits prod.splits sum.splits)

lemma enrich_one_abstract:
  assumes "enrich_one urljoin fetch_page w p = Inr (p', w')"
    and "determine_paper_url p = Some url" and "url \<noteq> []"
    and "fst (fetch_page w url) = Some soup"
    and "find_abstract soup = Some e"
  shows "abstract p' = Some (get_text_strip e)"
proof -
  obtain w1 where f: "fetch_page w url = (Some soup, w1)"
    using assms(4) by (cases "fetch_page w url") auto
  from assms(1) obtain q where
    q: "fill_pdf_url urljoin soup (set_abstract soup p) = Inr q" and p': "p' = drop_paper_url q"
    using assms(2,3) f by (auto simp: enrich_one_def truthy_def split: sum.splits)
  from fill_pdf_url_frame[OF q] have "abstract q = abstract (set_abstract soup p)"
    by (metis paper.select_convs(6) paper.surjective paper.update_convs(4))
  then show ?thesis
    using assms(5) p' by (simp add: set_abstract_def drop_paper_url_def)
qed

lemma enrich_one_fail:
  "fst (fetch_page w u) = None \<Longrightarrow> determine_paper_url p = Some u \<Longrightarrow> u \<noteq> [] \<Longrightarrow>
     enrich_one urljoin fetch_page w p = Inr (p\<lparr>paper_url := None\<rparr>, snd (fetch_page w u))"
  by (cases "fetch_page w u") (auto simp: enrich_one_def drop_paper_url_def truthy_def)

lemma enrich_one_failing:
  assumes "\<forall>w u. fst (fetch_page w u) = None"
  shows "\<exists>w'. enrich_one urljoin fetch_page w p = Inr (p\<lparr>paper_url := None\<rparr>, w')"
proof (cases "determine_paper_url p")
  case None
  then show ?thesis by (simp add: enrich_one_def drop_paper_url_def truthy_def)
next
  case (Some u)
  show ?thesis
  proof (cases "u = []")
    case True
    with Some show ?thesis by (simp add: enrich_one_def drop_paper_url_def truthy_def)
  next
    case False
    from assms have "fst (fetch_page w u) = None" by simp
    with Some False show ?thesis
      using enrich_one_fail[of fetch_page w u p urljoin] by blast
  qed
qed

lemma enrich_loop_failing:
  assumes "\<forall>w u. fst (fetch_page w u) = None"
  shows "\<exists>w'. enrich_loop urljoin fetch_page w ps acc = Inr (acc @ map (\<lambda>p. p\<lparr>paper_url := None\<rparr>) ps, w')"
proof (induction ps arbitrary: w acc)
  case Nil
  then show ?case by simp
next
  case (Cons p ps)
  from enrich_one_failing[OF assms] obtain w1 where
    one: "enrich_one urljoin fetch_page w p = Inr (p\<lparr>paper_url := None\<rparr>, w1)"
    by blast
  from Cons.IH[of w1 "acc @ [p\<lparr>paper_url := None\<rparr>]"] one show ?case
    by auto
qed


text \<open>
  Claim C6. A record whose \<open>pdf_url\<close> is set and non-empty before enrichment has the same
  \<open>pdf_url\<close> afterwards, whatever the fetched detail page contains; a \<open>pdf_url\<close> that differs
  after enrichment was absent or empty before.
\<close>

theorem enrich_keeps_pdf_url:
  "(case enrich_paper_details urljoin fetch_page w ps of
      Inr (out, w') \<Rightarrow>
        (\<forall>i<length ps.
           (truthy (pdf_url (ps ! i)) \<longrightarrow> pdf_url (out ! i) = pdf_url (ps ! i)) \<and>
           (pdf_url (out ! i) \<noteq> pdf_url (ps ! i) \<longrightarrow>
              pdf_url (ps ! i) = None \<or> pdf_url (ps ! i) = Some []))
    | Inl e \<Rightarrow> \<exists>h. urljoin BASE h = None)"
proof (cases "enrich_paper_details urljoin fetch_page w ps")
  case (Inl e)
  then show ?thesis
    by (auto simp: enrich_paper_details_def dest: enrich_loop_Inl)
next
  case (Inr r)
  obtain out w' where r: "r = (out, w')" by (cases r)
  note ret = Inr[unfolded r]
  have "pdf_url (out ! i) = pdf_url (ps ! i)"
    if "i < length ps" "truthy (pdf_url (ps ! i))" for i
    using enrich_Inr_nth(2)[OF ret that(1)] that(2) by (blast dest: enrich_one_keeps_pdf_url)
  moreover have "truthy v \<or> v = None \<or> v = Some []" for v
    by (cases v) (auto simp: truthy_def)
  ultimately show ?thesis
    unfolding ret by (simp, metis)
qed

text \<open>
  A record with a \<open>pdf_url\<close>, enriched from a page that links another \<open>.pdf\<close> file.
\<close>

theorem enrich_keeps_pdf_url_witness:
  "truthy (pdf_url paper0) \<and>
   find_tag_attr ''a'' ''href'' re_pdf page0 = Some (Elem 2 ''a'' [(''href'', ''/content/other.pdf'')] [Text ''pdf'']) \<and>
   (\<exists>out. enrich_paper_details join_url fetch_ok () [paper0] = Inr (out, ()) \<and>
      pdf_url (out ! 0) = Some ''https://openaccess.thecvf.com/content/papers/a.pdf'')"
proof -
  have ev: "enrich_paper_details join_url fetch_ok () [paper0] =
      Inr ([paper0\<lparr>paper_url := None, abstract := Some ''A new abstract.''\<rparr>], ())"
    by code_simp
  have t: "truthy (pdf_url paper0)" by code_simp
  have f: "find_tag_attr ''a'' ''href'' re_pdf page0 = Some (Elem 2 ''a'' [(''href'', ''/content/other.pdf'')] [Text ''pdf''])"
    by code_simp
  have main: "pdf_url ([paper0\<lparr>paper_url := None, abstract := Some ''A new abstract.''\<rparr>] ! 0) =
      pdf_url ([paper0] ! 0)"
    using enrich_keeps_pdf_url[where urljoin = join_url and fetch_page = fetch_ok and w = "()"
        and ps = "[paper0]"] t
    unfolding ev by simp
  have "pdf_url ([paper0] ! 0) = Some ''https://openaccess.thecvf.com/content/papers/a.pdf''"
    by (simp add: paper0_def)
  with main ev t f show ?thesis
    by (intro conjI exI[of _ "[paper0\<lparr>paper_url := None, abstract := Some ''A new abstract.''\<rparr>]"]) simp_all
qed

text \<open>
  Claim C3. With a fetcher that fails on every URL, \<open>enrich_paper_details\<close> returns every
  record as it was, except that the key \<open>_paper_url\<close> is removed.
\<close>

theorem enrich_failing_fetch:
  assumes "\<forall>w u. fst (fetch_page w u) = None"
  shows "\<exists>w'. enrich_paper_details urljoin fetch_page w ps =
           Inr (map (\<lambda>p. p\<lparr>paper_url := None\<rparr>) ps, w')"
  using enrich_loop_failing[OF assms, of urljoin w ps "[]"]
  by (simp add: enrich_paper_details_def)

theorem enrich_failing_fetch_witness:
  "(\<forall>w u. fst (fetch_fail w u) = None) \<and>
   (\<exists>w'. enrich_paper_details join_url fetch_fail () [paper0] = Inr ([paper0\<lparr>paper_url := None\<rparr>], w'))"
proof -
  have h: "\<forall>w u. fst (fetch_fail w u) = None"
    by (simp add: fetch_fail_def)
  show ?thesis
    using h enrich_failing_fetch[OF h, where urljoin = join_url and w = "()" and ps = "[paper0]"] by simp
qed

text \<open>
  Claim C9. A record that already has an abstract, whose detail page is fetched and holds an
  abstract container, leaves enrichment with the text of that container as its abstract:
  nothing guards the old abstract.
\<close>

theorem enrich_replaces_abstract:
  assumes "enrich_paper_details urljoin fetch_page w ps = Inr (out, w')"
    and "i < length ps"
    and "abstract (ps ! i) = Some old"
    and "determine_paper_url (ps ! i) = Some url" and "url \<noteq> []"
    and "\<forall>w. fst (fetch_page w url) = Some soup"
    and "find_abstract soup = Some e"
  shows "abstract (out ! i) = Some (get_text_strip e)"
proof -
  from enrich_Inr_nth(2)[OF assms(1,2)] obtain w1 w2 where
    one: "enrich_one urljoin fetch_page w1 (ps ! i) = Inr (out ! i, w2)"
    by blast
  from assms(6) have page: "fst (fetch_page w1 url) = Some soup"
    by simp
  show ?thesis
    by (rule enrich_one_abstract[OF one assms(4,5) page assms(7)])
qed

theorem enrich_replaces_abstract_witness:
  "enrich_paper_details join_url fetch_ok () [paper0] =
      Inr ([paper0\<lparr>paper_url := None, abstract := Some ''A new abstract.''\<rparr>], ()) \<and>
   (0::nat) < length [paper0] \<and> abstract ([paper0] ! 0) = Some ''An old abstract.'' \<and>
   determine_paper_url ([paper0] ! 0) = Some ''https://openaccess.thecvf.com/content/a.html'' \<and>
   (\<forall>w. fst (fetch_ok w ''https://openaccess.thecvf.com/content/a.html'') = Some page0) \<and>
   find_abstract page0 = Some (Elem 1 ''div'' [(''class'', ''paper Abstract'')] [Text '' A new abstract. '']) \<and>
   abstract ([paper0\<lparr>paper_url := None, abstract := Some ''A new abstract.''\<rparr>] ! 0) =
     Some (get_text_strip (Elem 1 ''div'' [(''class'', ''paper Abstract'')] [Text '' A new abstract. '']))"
proof -
  have ev: "enrich_paper_details join_url fetch_ok () [paper0] =
      Inr ([paper0\<lparr>paper_url := None, abstract := Some ''A new abstract.''\<rparr>], ())"
    by code_simp
  have h2: "(0::nat) < length [paper0]" by simp
  have h3: "abstract ([paper0] ! 0) = Some ''An old abstract.''" by (simp add: paper0_def)
  have h4: "determine_paper_url ([paper0] ! 0) = Some ''https://openaccess.thecvf.com/content/a.html''"
    by code_simp
  have h5: "''https://openaccess.thecvf.com/content/a.html'' \<noteq> []" by simp
  have h6: "\<forall>w. fst (fetch_ok w ''https://openaccess.thecvf.com/content/a.html'') = Some page0"
    by (simp add: fetch_ok_def)
  have h7: "find_abstract page0 = Some (Elem 1 ''div'' [(''class'', ''paper Abstract'')] [Text '' A new abstract. ''])"
    by code_simp
  from enrich_replaces_abstract[OF ev h2 h3 h4 h5 h6 h7] ev h2 h3 h4 h6 h7
  show ?thesis by blast
qed

section \<open>The derived detail-page URL\<close>

lemma str_replace_absent:
  "old \<noteq> [] \<Longrightarrow> \<not> sublist old s \<Longrightarrow> str_replace old new s = s"
  by (induction s) (auto simp: sublist_Cons_right)

lemma prefix_append_short:
  "prefix xs (ys @ zs) \<Longrightarrow> length xs \<le> length ys \<Longrightarrow> prefix xs ys"
  by (auto simp: prefix_append)

lemma str_replace_first:
  assumes "old \<noteq> []"
  shows "\<not> sublist old (a @ butlast old) \<Longrightarrow>
         str_replace old new (a @ old @ t) = a @ new @ str_replace old new t"
proof (induction a)
  case Nil
  from assms obtain c cs where old: "old = c # cs" by (cases old) auto
  show ?case by (simp add: old)
next
  case (Cons x a)
  have np: "\<not> prefix old (x # a @ old @ t)"
  proof
    assume p: "prefix old (x # a @ old @ t)"
    have "x # a @ old @ t = ((x # a) @ butlast old) @ (last old # t)"
      using assms by (simp add: append_butlast_last_id[symmetric] del: append_butlast_last_id)
    with p have "prefix old (((x # a) @ butlast old) @ (last old # t))" by simp
    moreover have "length old \<le> length ((x # a) @ butlast old)"
      using assms by (cases old) auto
    ultimately have "prefix old ((x # a) @ butlast old)"
      by (rule prefix_append_short)
    with Cons.prems show False by auto
  qed
  from Cons.prems have "\<not> sublist old (a @ butlast old)"
    by (simp add: sublist_Cons_right)
  with Cons.IH np assms show ?case by simp
qed

text \<open>
  Claim C4, as stated, fails: \<open>str.replace\<close> rewrites every occurrence. In the URL below the
  first \<open>.pdf\<close> is not the suffix, and it is rewritten too.
\<close>

theorem determine_paper_url_counterexample:
  "\<not> truthy (paper_url (paper_pdf_only ''https://h/a.pdf/papers/b.pdf'')) \<and>
   pdf_url (paper_pdf_only ''https://h/a.pdf/papers/b.pdf'') = Some (''https://h/a.pdf'' @ ''/papers/'' @ ''b'' @ ''.pdf'') \<and>
   determine_paper_url (paper_pdf_only ''https://h/a.pdf/papers/b.pdf'') = Some ''https://h/a.html/b.html'' \<and>
   determine_paper_url (paper_pdf_only ''https://h/a.pdf/papers/b.pdf'') \<noteq> Some (''https://h/a.pdf'' @ ''/'' @ ''b'' @ ''.html'')"
  by code_simp

text \<open>
  Claim C4, amended. For a record without a stashed detail-page URL and with a non-empty
  \<open>pdf_url\<close>, the detail-page URL is \<open>pdf_url\<close> with every occurrence of \<open>/papers/\<close> replaced
  by \<open>/\<close> and then every occurrence of \<open>.pdf\<close> replaced by \<open>.html\<close>. When \<open>pdf_url\<close> is
  \<open>a/papers/b.pdf\<close> with no other occurrence of \<open>/papers/\<close> and no \<open>.pdf\<close> before the suffix,
  the result is \<open>a/b.html\<close>.
\<close>

theorem determine_paper_url_derived:
  assumes "\<not> truthy (paper_url p)" and "pdf_url p = Some u" and "u \<noteq> []"
  shows "determine_paper_url p =
           Some (str_replace ''.pdf'' ''.html'' (str_replace ''/papers/'' ''/'' u)) \<and>
         (\<forall>a b. u = a @ ''/papers/'' @ b @ ''.pdf'' \<and>
                \<not> sublist ''/papers/'' (a @ ''/papers'') \<and> \<not> sublist ''/papers/'' (b @ ''.pdf'') \<and>
                \<not> sublist ''.pdf'' (a @ ''/'' @ b @ ''.pd'')
            \<longrightarrow> determine_paper_url p = Some (a @ ''/'' @ b @ ''.html''))"
proof -
  have d: "determine_paper_url p =
      Some (str_replace ''.pdf'' ''.html'' (str_replace ''/papers/'' ''/'' u))"
    using assms by (simp add: determine_paper_url_def truthy_def)
  have "str_replace ''.pdf'' ''.html'' (str_replace ''/papers/'' ''/'' u) = a @ ''/'' @ b @ ''.html''"
    if u: "u = a @ ''/papers/'' @ b @ ''.pdf''"
      and n1: "\<not> sublist ''/papers/'' (a @ ''/papers'')"
      and n2: "\<not> sublist ''/papers/'' (b @ ''.pdf'')"
      and n3: "\<not> sublist ''.pdf'' (a @ ''/'' @ b @ ''.pd'')" for a b
  proof -
    have "str_replace ''/papers/'' ''/'' (a @ ''/papers/'' @ (b @ ''.pdf'')) =
        a @ ''/'' @ str_replace ''/papers/'' ''/'' (b @ ''.pdf'')"
      using n1 by (intro str_replace_first) simp_all
    also have "str_replace ''/papers/'' ''/'' (b @ ''.pdf'') = b @ ''.pdf''"
      using n2 by (intro str_replace_absent) simp_all
    finally have r1: "str_replace ''/papers/'' ''/'' u = (a @ ''/'' @ b) @ ''.pdf'' @ []"
      by (simp add: u)
    have "str_replace ''.pdf'' ''.html'' ((a @ ''/'' @ b) @ ''.pdf'' @ []) =
        (a @ ''/'' @ b) @ ''.html'' @ str_replace ''.pdf'' ''.html'' []"
      using n3 by (intro str_replace_first) simp_all
    then show ?thesis
      by (simp add: r1)
  qed
  with d show ?thesis by simp
qed

theorem determine_paper_url_derived_witness:
  "\<not> truthy (paper_url (paper_pdf_only ''https://h/content/papers/b.pdf'')) \<and>
   pdf_url (paper_pdf_only ''https://h/content/papers/b.pdf'') = Some ''https://h/content/papers/b.pdf'' \<and>
   ''https://h/content/papers/b.pdf'' \<noteq> [] \<and>
   ''https://h/content/papers/b.pdf'' = ''https://h/content'' @ ''/papers/'' @ ''b'' @ ''.pdf'' \<and>
   \<not> sublist ''/papers/'' (''https://h/content'' @ ''/papers'') \<and>
   \<not> sublist ''/papers/'' (''b'' @ ''.pdf'') \<and>
   \<not> sublist ''.pdf'' (''https://h/content'' @ ''/'' @ ''b'' @ ''.pd'') \<and>
   determine_paper_url (paper_pdf_only ''https://h/content/papers/b.pdf'') = Some ''https://h/content/b.html''"
proof -
  have h1: "\<not> truthy (paper_url (paper_pdf_only ''https://h/content/papers/b.pdf''))"
    by (simp add: paper_pdf_only_def empty_paper_def truthy_def)
  have h2: "pdf_url (paper_pdf_only ''https://h/content/papers/b.pdf'') = Some ''https://h/content/papers/b.pdf''"
    by (simp add: paper_pdf_only_def)
  have h3: "''https://h/content/papers/b.pdf'' \<noteq> []" by simp
  have h4: "''https://h/content/papers/b.pdf'' = ''https://h/content'' @ ''/papers/'' @ ''b'' @ ''.pdf''"
    by simp
  have h5: "\<not> sublist ''/papers/'' (''https://h/content'' @ ''/papers'')" by code_simp
  have h6: "\<not> sublist ''/papers/'' (''b'' @ ''.pdf'')" by code_simp
  have h7: "\<not> sublist ''.pdf'' (''https://h/content'' @ ''/'' @ ''b'' @ ''.pd'')" by code_simp
  note shape = conjunct2[OF determine_paper_url_derived[OF h1 h2 h3], THEN spec, THEN spec, THEN mp]
  have r: "determine_paper_url (paper_pdf_only ''https://h/content/papers/b.pdf'') =
      Some (''https://h/content'' @ ''/'' @ ''b'' @ ''.html'')"
    by (rule shape) (intro conjI h4 h5 h6 h7)
  have e: "''https://h/content'' @ ''/'' @ ''b'' @ ''.html'' = ''https://h/content/b.html''"
    by simp
  show ?thesis
    by (intro conjI h1 h2 h3 h4 h5 h6 h7 r[unfolded e])
qed

section \<open>Properties of \<open>extract_paper_info\<close>\<close>









text \<open>
  Claim C8 says that, in a detail node without links, only a label at the start of the text
  is stripped before the text is split at the commas. The source does more than that. The
  detail node below has no link and its text does not start with a label, but \<open>By:\<close> occurs
  inside it: the source tests \<open>prefix in author_text\<close> and keeps what follows the first
  occurrence, so the name before the label is lost and the only author left is \<open>admin\<close>.
\<close>

theorem extract_authors_label_inside:
  "find_all ''a'' (Elem 4 ''dd'' [] [Text ''A. Smith, Posted By: admin'']) = [] \<and>
   get_text_strip (Elem 4 ''dd'' [] [Text ''A. Smith, Posted By: admin'']) = ''A. Smith, Posted By: admin'' \<and>
   \<not> prefix ''By:'' ''A. Smith, Posted By: admin'' \<and>
   map_option authors (extract_paper_info join_url wrapper1) = Some (Some [''admin''])"
  by code_simp

section \<open>Properties of the listing pass\<close>

subsection \<open>The store\<close>

lemma lookup_absent:
  "i \<notin> set (ids n) \<Longrightarrow> lookup_node i n = None"
  "i \<notin> set (store_ids ns) \<Longrightarrow> lookup_list i ns = None"
  by (induction i n and i ns rule: lookup_node_lookup_list.induct) (auto simp: store_ids_def)

lemma remove_absent: "i \<notin> set (ids n) \<Longrightarrow> remove_node i n = n"
proof (induction i n rule: remove_node.induct)
  case (1 i s)
  then show ?case by simp
next
  case (2 i j t a cs)
  have f: "filter (\<lambda>c. node_id c \<noteq> Some i) cs = cs"
  proof (rule filter_True, rule ballI)
    fix c assume "c \<in> set cs"
    with 2(2) have "i \<notin> set (ids c)" by auto
    then show "node_id c \<noteq> Some i" by (cases c) auto
  qed
  have "map (remove_node i) cs = cs"
  proof (rule map_idI)
    fix c assume c: "c \<in> set cs"
    with 2(2) have "i \<notin> set (ids c)" by auto
    with 2(1)[of c] c f show "remove_node i c = c" by simp
  qed
  with f show ?case by simp
qed

lemma remove_absent_list: "i \<notin> set (store_ids ns) \<Longrightarrow> map (remove_node i) ns = ns"
  by (rule map_idI) (auto simp: store_ids_def intro: remove_absent)

lemma filter_id_absent:
  "i \<notin> set (store_ids ns) \<Longrightarrow> filter (\<lambda>c. node_id c \<noteq> Some i) ns = ns"
proof (rule filter_True, rule ballI)
  fix c assume "i \<notin> set (store_ids ns)" "c \<in> set ns"
  then have "i \<notin> set (ids c)" by (auto simp: store_ids_def)
  then show "node_id c \<noteq> Some i" by (cases c) auto
qed

lemma siblings_after_skip:
  "i \<notin> set (store_ids ns) \<Longrightarrow> siblings_after i (ns @ ms) = siblings_after i ms"
proof (induction ns)
  case Nil
  then show ?case by simp
next
  case (Cons c ns)
  then have "node_id c \<noteq> Some i" by (cases c) (auto simp: store_ids_def)
  with Cons show ?case by (simp add: store_ids_def)
qed

lemma lookup_list_skip:
  "i \<notin> set (store_ids ns) \<Longrightarrow> lookup_list i (ns @ ms) = lookup_list i ms"
proof (induction ns)
  case Nil
  then show ?case by simp
next
  case (Cons c ns)
  then have "lookup_node i c = None" by (auto simp: store_ids_def intro: lookup_absent(1))
  with Cons show ?case by (simp add: store_ids_def)
qed

lemma store_ids_append [simp]: "store_ids (xs @ ys) = store_ids xs @ store_ids ys"
  by (simp add: store_ids_def)

lemma store_ids_Cons [simp]: "store_ids (x # xs) = ids x @ store_ids xs"
  by (simp add: store_ids_def)

lemma store_ids_Nil [simp]: "store_ids [] = []"
  by (simp add: store_ids_def)

lemma ids_Elem: "ids (Elem i t a cs) = i # store_ids cs"
  by (simp add: store_ids_def)

lemma fold_max_ge: "x \<in> set xs \<Longrightarrow> x \<le> fold max xs (m::nat)"
proof (induction xs arbitrary: m)
  case Nil
  then show ?case by simp
next
  case (Cons y ys)
  have mono: "m \<le> fold max ys m" for m :: nat
    by (induction ys arbitrary: m) (auto intro: order_trans[OF max.cobounded2])
  from Cons show ?case
    using mono[of "max y m"] by auto
qed

lemma fresh_id_fresh: "fresh_id F \<notin> set (store_ids F)"
proof
  assume "fresh_id F \<in> set (store_ids F)"
  then have "fresh_id F \<le> fold max (store_ids F) 0" by (rule fold_max_ge)
  then show False by (simp add: fresh_id_def)
qed

lemma remove_child:
  assumes "node_id c = Some i" and "i \<notin> set (store_ids xs)" and "i \<notin> set (store_ids ys)"
  shows "remove_node i (Elem r nm at (xs @ c # ys)) = Elem r nm at (xs @ ys)"
proof -
  have "filter (\<lambda>n. node_id n \<noteq> Some i) (xs @ c # ys) = xs @ ys"
    using assms by (simp add: filter_id_absent)
  moreover have "map (remove_node i) (xs @ ys) = xs @ ys"
    using assms by (intro remove_absent_list) simp
  ultimately show ?thesis by simp
qed

lemma lookup_child:
  assumes "node_id c = Some i" and "i \<noteq> r" and "i \<notin> set (store_ids xs)"
  shows "lookup_node i (Elem r nm at (xs @ c # ys)) = Some c"
proof -
  from assms(1) obtain t a cs where c: "c = Elem i t a cs" by (cases c) auto
  have "lookup_list i (xs @ c # ys) = lookup_list i (c # ys)"
    using assms(3) by (rule lookup_list_skip)
  then show ?thesis
    using assms(2) by (simp add: c)
qed

lemma next_siblings_child:
  assumes "node_id c = Some i" and "i \<notin> set (store_ids xs)"
  shows "next_siblings i (Elem r nm at (xs @ c # ys)) = Some ys"
proof -
  have "siblings_after i (xs @ c # ys) = siblings_after i (c # ys)"
    using assms(2) by (rule siblings_after_skip)
  then show ?thesis
    using assms(1) by simp
qed

lemma node_id_absent: "i \<notin> set (ids c) \<Longrightarrow> node_id c \<noteq> Some i"
  by (cases c) auto

lemma node_ids_absent:
  assumes "i \<notin> set (store_ids cs)" and "c \<in> set cs"
  shows "node_id c \<noteq> Some i"
proof -
  from assms have "i \<notin> set (ids c)" by (auto simp: store_ids_def)
  then show ?thesis by (rule node_id_absent)
qed

lemma siblings_after_None:
  "\<forall>c\<in>set cs. node_id c \<noteq> Some i \<Longrightarrow> siblings_after i cs = None"
  by (induction cs) auto

lemma next_siblings_absent:
  "i \<notin> set (ids n) \<Longrightarrow> next_siblings i n = None"
  "i \<notin> set (store_ids ns) \<Longrightarrow> next_siblings_list i ns = None"
proof (induction i n and i ns rule: next_siblings_next_siblings_list.induct)
  case (1 i s)
  then show ?case by simp
next
  case (2 i j t a cs)
  then have abs: "i \<notin> set (store_ids cs)" by (simp add: store_ids_def)
  then have "\<forall>c\<in>set cs. node_id c \<noteq> Some i"
    using node_ids_absent by blast
  then have "siblings_after i cs = None" by (rule siblings_after_None)
  with 2 abs show ?case by simp
next
  case (3 i)
  then show ?case by simp
next
  case (4 i c cs)
  then show ?case by simp
qed

lemma next_siblings_list_skip:
  "i \<notin> set (store_ids ns) \<Longrightarrow> next_siblings_list i (ns @ ms) = next_siblings_list i ms"
  by (induction ns) (simp_all add: next_siblings_absent(1))

lemma node_id_plug:
  "node_id (plug ctx n) \<noteq> Some i" if "node_id n \<noteq> Some i" and "i \<notin> set (ctx_ids ctx)"
proof (cases ctx)
  case Nil
  then show ?thesis using that by simp
next
  case (Cons f fs)
  then show ?thesis using that by (cases f) (simp add: ctx_ids_def)
qed

lemma lookup_plug:
  "i \<notin> set (ctx_ids ctx) \<Longrightarrow> lookup_node i (plug ctx n) = lookup_node i n"
proof (induction ctx n rule: plug.induct)
  case (1 n)
  then show ?case by simp
next
  case (2 j t a left right ctx n)
  then have i: "i \<noteq> j" "i \<notin> set (store_ids left)" "i \<notin> set (store_ids right)"
    "i \<notin> set (ctx_ids ctx)"
    by (simp_all add: ctx_ids_def)
  have "lookup_list i (left @ plug ctx n # right) = lookup_list i (plug ctx n # right)"
    using i(2) by (rule lookup_list_skip)
  also have "\<dots> = lookup_node i n"
    using 2(1)[OF i(4)] lookup_absent(2)[OF i(3)] by (simp split: option.splits)
  finally show ?case
    using i(1) by simp
qed

lemma next_siblings_plug:
  "i \<notin> set (ctx_ids ctx) \<Longrightarrow> node_id n \<noteq> Some i \<Longrightarrow>
     next_siblings i (plug ctx n) = next_siblings i n"
proof (induction ctx n rule: plug.induct)
  case (1 n)
  then show ?case by simp
next
  case (2 j t a left right ctx n)
  then have i: "i \<notin> set (store_ids left)" "i \<notin> set (store_ids right)" "i \<notin> set (ctx_ids ctx)"
    by (simp_all add: ctx_ids_def)
  have "\<forall>c\<in>set (left @ plug ctx n # right). node_id c \<noteq> Some i"
    using node_ids_absent[OF i(1)] node_ids_absent[OF i(2)] node_id_plug[OF 2(3) i(3)]
    by auto
  then have none: "siblings_after i (left @ plug ctx n # right) = None"
    by (rule siblings_after_None)
  have "next_siblings_list i (left @ plug ctx n # right) = next_siblings_list i (plug ctx n # right)"
    using i(1) by (rule next_siblings_list_skip)
  also have "\<dots> = next_siblings i n"
    using 2(1)[OF i(3) 2(3)] next_siblings_absent(2)[OF i(2)] by (simp split: option.splits)
  finally show ?case
    using none by simp
qed

lemma remove_plug:
  "i \<notin> set (ctx_ids ctx) \<Longrightarrow> node_id n \<noteq> Some i \<Longrightarrow>
     remove_node i (plug ctx n) = plug ctx (remove_node i n)"
proof (induction ctx n rule: plug.induct)
  case (1 n)
  then show ?case by simp
next
  case (2 j t a left right ctx n)
  then have i: "i \<notin> set (store_ids left)" "i \<notin> set (store_ids right)" "i \<notin> set (ctx_ids ctx)"
    by (simp_all add: ctx_ids_def)
  have "filter (\<lambda>c. node_id c \<noteq> Some i) (left @ plug ctx n # right) = left @ plug ctx n # right"
    using i node_id_plug[OF 2(3) i(3)] by (simp add: filter_id_absent)
  moreover have "map (remove_node i) (left @ plug ctx n # right) =
      left @ plug ctx (remove_node i n) # right"
    using i 2(1)[OF i(3) 2(3)] by (simp add: remove_absent_list)
  ultimately show ?case by simp
qed

lemma mset_ids_plug: "mset (ids (plug ctx n)) = mset (ctx_ids ctx) + mset (ids n)"
  by (induction ctx n rule: plug.induct) (simp_all add: ctx_ids_def store_ids_def)

lemma distinct_store_plug:
  "distinct (store_ids (plug ctx n # W)) = distinct (ids n @ ctx_ids ctx @ store_ids W)"
  by (rule mset_eq_imp_distinct_iff) (simp add: mset_ids_plug)

lemma set_store_plug:
  "set (store_ids (plug ctx n # W)) = set (ids n @ ctx_ids ctx @ store_ids W)"
  by (rule mset_eq_setD) (simp add: mset_ids_plug)

lemma wrap_entry_flat:
  assumes F: "F = plug ctx (Elem r nm at (junk @ dt # between @ dd # rest)) # W"
    and dt: "node_id dt = Some d"
    and dd: "is_tag ''dd'' dd"
    and nb: "list_all (\<lambda>n. \<not> is_tag ''dd'' n) between"
    and dist: "distinct (store_ids F)"
  shows "wrap_entry d F =
           (Elem (fresh_id F) ''div'' [] [dt, dd],
            plug ctx (Elem r nm at (junk @ between @ rest)) # W @ [Elem (fresh_id F) ''div'' [] [dt, dd]])"
proof -
  let ?hole = "Elem r nm at (junk @ dt # between @ dd # rest)"
  let ?hole1 = "Elem r nm at (junk @ between @ dd # rest)"
  from dd obtain e a cs where dd_eq: "dd = Elem e ''dd'' a cs" by (cases dd) auto
  from dt obtain t' a' cs' where dt_eq: "dt = Elem d t' a' cs'" by (cases dt) auto
  from dist have dist': "distinct (ids ?hole @ ctx_ids ctx @ store_ids W)"
    unfolding F distinct_store_plug .
  from dist' have d_facts: "d \<noteq> r" "d \<notin> set (store_ids junk)"
      "d \<notin> set (store_ids (between @ dd # rest))" "d \<notin> set (ctx_ids ctx)" "d \<notin> set (store_ids W)"
    unfolding dt_eq by (simp_all add: ids_Elem del: ids.simps)
  from dist' have e_facts: "e \<noteq> r" "e \<notin> set (store_ids (junk @ between))"
      "e \<notin> set (store_ids rest)" "e \<notin> set (ctx_ids ctx)" "e \<notin> set (store_ids W)"
    unfolding dd_eq by (simp_all add: ids_Elem del: ids.simps)
  have rd: "node_id ?hole \<noteq> Some d" "node_id ?hole1 \<noteq> Some e"
    using d_facts(1) e_facts(1) by simp_all
  have "next_siblings d (plug ctx ?hole) = Some (between @ dd # rest)"
    unfolding next_siblings_plug[OF d_facts(4) rd(1)]
    by (rule next_siblings_child[OF dt d_facts(2)])
  then have sib: "next_siblings_list d F = Some (between @ dd # rest)"
    unfolding F by simp
  have "filter (is_tag ''dd'') between = []"
    using nb by (induction between) auto
  then have fns: "find_next_sibling d ''dd'' F = Some dd"
    by (simp add: find_next_sibling_def sib dd_eq)
  have "lookup_node d (plug ctx ?hole) = Some dt"
    unfolding lookup_plug[OF d_facts(4)]
    by (rule lookup_child[OF dt d_facts(1,2)])
  then have look: "lookup_list d F = Some dt"
    unfolding F by simp
  have "remove_node d (plug ctx ?hole) = plug ctx ?hole1"
    unfolding remove_plug[OF d_facts(4) rd(1)]
    using remove_child[OF dt d_facts(2,3)] by simp
  moreover have "map (remove_node d) W = W"
    using d_facts(5) by (rule remove_absent_list)
  ultimately have F1: "detach dt F = plug ctx ?hole1 # W"
    unfolding F by (simp add: detach_def dt)
  have "remove_node e (plug ctx (Elem r nm at ((junk @ between) @ dd # rest))) =
      plug ctx (Elem r nm at ((junk @ between) @ rest))"
    using remove_plug[OF e_facts(4), of "Elem r nm at ((junk @ between) @ dd # rest)"] e_facts(1)
      remove_child[OF _ e_facts(2,3), of dd r nm at]
    by (simp add: dd_eq)
  moreover have "map (remove_node e) W = W"
    using e_facts(5) by (rule remove_absent_list)
  ultimately have F2: "detach dd (detach dt F) = plug ctx (Elem r nm at (junk @ between @ rest)) # W"
    unfolding F1 by (simp add: detach_def dd_eq)
  show ?thesis
    by (simp add: wrap_entry_def fns look F2 Let_def)
qed

lemma wrap_entry_flat_distinct:
  assumes F: "F = plug ctx (Elem r nm at (junk @ dt # between @ dd # rest)) # W"
    and dist: "distinct (store_ids F)"
  shows "distinct (store_ids (plug ctx (Elem r nm at (junk @ between @ rest)) # W @
           [Elem (fresh_id F) ''div'' [] [dt, dd]]))"
proof -
  have fresh: "fresh_id F \<notin> set (store_ids F)" by (rule fresh_id_fresh)
  have "mset (store_ids (plug ctx (Elem r nm at (junk @ between @ rest)) # W @
           [Elem (fresh_id F) ''div'' [] [dt, dd]])) = mset (fresh_id F # store_ids F)"
    unfolding F by (simp add: mset_ids_plug store_ids_def)
  then have "distinct (store_ids (plug ctx (Elem r nm at (junk @ between @ rest)) # W @
           [Elem (fresh_id F) ''div'' [] [dt, dd]])) = distinct (fresh_id F # store_ids F)"
    by (rule mset_eq_imp_distinct_iff)
  with dist fresh show ?thesis by simp
qed

subsection \<open>Extraction from a wrapper\<close>

lemma find_where_Some:
  "find_where P n = Some x \<Longrightarrow> x \<in> set (descendants n) \<and> P x"
proof -
  assume "find_where P n = Some x"
  then obtain xs where "filter P (descendants n) = x # xs"
    by (auto simp: find_where_def split: list.splits)
  then have "x \<in> set (filter P (descendants n))"
    by (metis list.set_intros(1))
  then show ?thesis by simp
qed

lemma links_resolveD:
  assumes "links_resolve urljoin n" and "a \<in> set (descendants n)" and "is_tag ''a'' a"
    and "get_attr ''href'' a = Some h"
  shows "urljoin BASE h \<noteq> None"
  using assms by (auto simp: links_resolve_def find_all_def list_all_iff)

lemma pair_link_resolves:
  assumes wf: "well_formed_pair urljoin dt dd"
    and a: "a \<in> set (descendants (Elem w ''div'' [] [dt, dd]))" "is_tag ''a'' a"
    and h: "get_attr ''href'' a = Some h"
  shows "urljoin BASE h \<noteq> None"
proof -
  from wf have tags: "is_tag ''dt'' dt" "is_tag ''dd'' dd"
    and res: "links_resolve urljoin dt" "links_resolve urljoin dd"
    by (simp_all add: well_formed_pair_def)
  from tags a(2) have "a \<noteq> dt" "a \<noteq> dd"
    by (cases a; cases dt; cases dd; auto)+
  with a(1) have "a \<in> set (descendants dt) \<or> a \<in> set (descendants dd)"
    by auto
  then show ?thesis
    using res a(2) h by (auto dest: links_resolveD)
qed

lemma extract_link_pair:
  assumes "well_formed_pair urljoin dt dd"
  shows "extract_link urljoin P (Elem w ''div'' [] [dt, dd]) \<noteq> None"
proof -
  have res: "urljoin BASE h \<noteq> None"
    if "find_tag_attr ''a'' ''href'' P (Elem w ''div'' [] [dt, dd]) = Some link"
      and "get_attr ''href'' link = Some h" for link h
  proof -
    from that(1) have "link \<in> set (descendants (Elem w ''div'' [] [dt, dd]))" "is_tag ''a'' link"
      by (auto simp: find_tag_attr_def dest: find_where_Some)
    then show ?thesis
      using that(2) by (rule pair_link_resolves[OF assms])
  qed
  show ?thesis
  proof (cases "find_tag_attr ''a'' ''href'' P (Elem w ''div'' [] [dt, dd])")
    case None
    then show ?thesis by (simp add: extract_link_def)
  next
    case (Some link)
    show ?thesis
    proof (cases "get_attr ''href'' link")
      case None
      with Some show ?thesis by (simp add: extract_link_def)
    next
      case (Some h)
      from res[OF \<open>find_tag_attr ''a'' ''href'' P (Elem w ''div'' [] [dt, dd]) = Some link\<close> Some]
      obtain u where "urljoin BASE h = Some u" by auto
      with Some \<open>find_tag_attr ''a'' ''href'' P (Elem w ''div'' [] [dt, dd]) = Some link\<close>
      show ?thesis by (simp add: extract_link_def)
    qed
  qed
qed

lemma find_tag_first_child:
  "is_tag t c \<Longrightarrow> find_tag t (Elem w nm at (c # cs)) = Some c"
  by (simp add: find_tag_def find_where_def)

lemma extract_title_pair:
  assumes wf: "well_formed_pair urljoin dt dd"
  shows "\<exists>info. extract_title urljoin (Elem w ''div'' [] [dt, dd]) empty_paper = Some info \<and>
           truthy (title info)"
proof -
  from wf have dt: "is_tag ''dt'' dt" by (simp add: well_formed_pair_def)
  then have ft: "find_tag ''dt'' (Elem w ''div'' [] [dt, dd]) = Some dt"
    by (rule find_tag_first_child)
  show ?thesis
  proof (cases "find_tag ''a'' dt")
    case None
    with wf have "get_text_strip dt \<noteq> []" by (simp add: well_formed_pair_def)
    with None ft show ?thesis
      by (simp add: extract_title_def truthy_def)
  next
    case (Some l)
    with wf have ne: "get_text_strip l \<noteq> []" by (simp add: well_formed_pair_def)
    from Some have l: "l \<in> set (descendants dt)" "is_tag ''a'' l"
      by (auto simp: find_tag_def dest: find_where_Some)
    have "urljoin BASE h \<noteq> None" if "get_attr ''href'' l = Some h" for h
    proof -
      from l(1) have "l \<in> set (descendants (Elem w ''div'' [] [dt, dd]))" by simp
      then show ?thesis using l(2) that by (rule pair_link_resolves[OF wf])
    qed
    with Some ft ne show ?thesis
      by (auto simp: extract_title_def truthy_def Let_def split: option.splits)
  qed
qed

lemma extract_paper_info_pair:
  assumes wf: "well_formed_pair urljoin dt dd"
  shows "\<exists>info. extract_paper_info urljoin (Elem w ''div'' [] [dt, dd]) = Some info \<and>
           truthy (title info)"
proof -
  from extract_title_pair[OF wf] obtain info1 where
    t: "extract_title urljoin (Elem w ''div'' [] [dt, dd]) empty_paper = Some info1" "truthy (title info1)"
    by blast
  from extract_link_pair[OF wf] obtain pdf supp where
    l: "extract_link urljoin re_pdf (Elem w ''div'' [] [dt, dd]) = Some pdf"
       "extract_link urljoin re_supp (Elem w ''div'' [] [dt, dd]) = Some supp"
    by (metis option.exhaust)
  from t l show ?thesis
    by (cases pdf; cases supp) (simp_all add: extract_paper_info_def Let_def extract_authors_def split: option.splits)
qed

subsection \<open>The loop\<close>

lemma title_refs_Nil: "title_refs [] = []"
  by (simp add: title_refs_def)

lemma title_refs_Cons:
  "node_id dt = Some d \<Longrightarrow> title_refs ((dt, between, dd, after) # es) = d # title_refs es"
  by (simp add: title_refs_def)

lemma listing_children_Cons:
  "listing_children ((dt, between, dd, after) # es) = dt # between @ dd # after @ listing_children es"
  by (simp add: listing_children_def)

lemma listing_loop_flat:
  assumes "list_all (well_formed_entry urljoin) es"
    and "distinct (store_ids (plug ctx (Elem r nm at (junk @ listing_children es)) # W))"
    and "n = min (length es) (nat (N - int (length acc)))"
  shows "\<exists>recs W'.
           listing_loop urljoin N (title_refs es) (plug ctx (Elem r nm at (junk @ listing_children es)) # W) acc =
             (acc @ recs,
              plug ctx (Elem r nm at (junk @ concat (map entry_rest (take n es)) @ listing_children (drop n es))) # W') \<and>
           length recs = n \<and> list_all (\<lambda>p. truthy (title p)) recs"
  using assms
proof (induction es arbitrary: junk W acc n)
  case Nil
  then show ?case
    by (simp add: title_refs_Nil)
next
  case (Cons e es)
  obtain dt between dd after where e: "e = (dt, between, dd, after)"
    by (cases e)
  from Cons.prems(1) have wf: "well_formed_pair urljoin dt dd"
    and nb: "list_all (\<lambda>n. \<not> is_tag ''dd'' n) between"
    and rest: "list_all (well_formed_entry urljoin) es"
    by (auto simp: e list_all_iff)
  from wf have tags: "is_tag ''dt'' dt" "is_tag ''dd'' dd"
    by (simp_all add: well_formed_pair_def)
  from tags(1) obtain d where d: "node_id dt = Some d"
    by (cases dt) auto
  let ?F = "plug ctx (Elem r nm at (junk @ listing_children (e # es))) # W"
  have F: "?F = plug ctx (Elem r nm at (junk @ dt # between @ dd # (after @ listing_children es))) # W"
    by (simp add: e listing_children_Cons)
  have refs: "title_refs (e # es) = d # title_refs es"
    unfolding e by (rule title_refs_Cons[OF d])
  show ?case
  proof (cases "N \<le> int (length acc)")
    case True
    with Cons.prems(3) have "n = 0" by simp
    with True show ?thesis
      by (simp add: refs)
  next
    case False
    define wrapper where "wrapper = Elem (fresh_id ?F) ''div'' [] [dt, dd]"
    have we: "wrap_entry d ?F =
        (wrapper, plug ctx (Elem r nm at ((junk @ between @ after) @ listing_children es)) # (W @ [wrapper]))"
      using wrap_entry_flat[OF F d tags(2) nb Cons.prems(2)]
      by (simp add: wrapper_def)
    have dist': "distinct (store_ids (plug ctx (Elem r nm at ((junk @ between @ after) @ listing_children es)) # (W @ [wrapper])))"
      using wrap_entry_flat_distinct[OF F Cons.prems(2)]
      by (simp add: wrapper_def)
    from extract_paper_info_pair[OF wf] obtain info where
      info: "extract_paper_info urljoin wrapper = Some info" "truthy (title info)"
      unfolding wrapper_def by blast
    define n' where "n' = min (length es) (nat (N - int (length (acc @ [info]))))"
    from False Cons.prems(3) have n: "n = Suc n'"
      by (simp add: n'_def)
    from Cons.IH[OF rest dist' n'_def] obtain recs W' where
      run: "listing_loop urljoin N (title_refs es)
              (plug ctx (Elem r nm at ((junk @ between @ after) @ listing_children es)) # (W @ [wrapper])) (acc @ [info]) =
            ((acc @ [info]) @ recs,
             plug ctx (Elem r nm at ((junk @ between @ after) @ concat (map entry_rest (take n' es)) @
               listing_children (drop n' es))) # W')"
      and len: "length recs = n'" and tr: "list_all (\<lambda>p. truthy (title p)) recs"
      by blast
    have "listing_loop urljoin N (title_refs (e # es)) ?F acc =
        listing_loop urljoin N (d # title_refs es) ?F acc"
      by (simp only: refs)
    also have "\<dots> = listing_loop urljoin N (title_refs es)
        (plug ctx (Elem r nm at ((junk @ between @ after) @ listing_children es)) # (W @ [wrapper])) (acc @ [info])"
      using False by (simp add: we info(1))
    also note run
    also have "plug ctx (Elem r nm at ((junk @ between @ after) @ concat (map entry_rest (take n' es)) @
          listing_children (drop n' es))) =
        plug ctx (Elem r nm at (junk @ concat (map entry_rest (take n (e # es))) @ listing_children (drop n (e # es))))"
      by (simp add: n e)
    finally have "listing_loop urljoin N (title_refs (e # es)) ?F acc =
        (acc @ (info # recs),
         plug ctx (Elem r nm at (junk @ concat (map entry_rest (take n (e # es))) @ listing_children (drop n (e # es)))) # W')"
      by simp
    moreover have "length (info # recs) = n" using len n by simp
    moreover have "list_all (\<lambda>p. truthy (title p)) (info # recs)" using tr info(2) by simp
    ultimately show ?thesis by blast
  qed
qed

lemma inert_list_filter:
  "list_all inert ns \<Longrightarrow> filter (is_tag ''dt'') (concat (map (\<lambda>c. c # descendants c) ns)) = []"
  by (induction ns) (simp_all add: inert_def find_all_def)

lemma entry_title_filter:
  assumes "well_formed_entry urljoin e"
  shows "filter (is_tag ''dt'') (concat (map (\<lambda>c. c # descendants c) (entry_nodes e))) = [fst e]"
proof -
  obtain dt between dd after where e: "e = (dt, between, dd, after)" by (cases e)
  from assms have wf: "well_formed_pair urljoin dt dd"
    and b: "list_all inert between" and a: "list_all inert after"
    by (auto simp: e list_all_iff)
  from wf have "is_tag ''dt'' dt" "find_all ''dt'' dt = []" "is_tag ''dd'' dd" "find_all ''dt'' dd = []"
    by (simp_all add: well_formed_pair_def)
  moreover from this have "\<not> is_tag ''dt'' dd" by (cases dd) auto
  ultimately show ?thesis
    using inert_list_filter[OF b] inert_list_filter[OF a]
    by (simp add: e find_all_def)
qed

lemma listing_title_filter:
  "list_all (well_formed_entry urljoin) es \<Longrightarrow>
     filter (is_tag ''dt'') (concat (map (\<lambda>c. c # descendants c) (listing_children es))) = map fst es"
proof (induction es)
  case Nil
  then show ?case by (simp add: listing_children_def)
next
  case (Cons e es)
  then have "well_formed_entry urljoin e" by simp
  from entry_title_filter[OF this] Cons show ?case
    by (simp add: listing_children_def)
qed

lemma title_filter_plug:
  "list_all frame_inert ctx \<Longrightarrow> \<not> is_tag ''dt'' n \<Longrightarrow>
     \<not> is_tag ''dt'' (plug ctx n) \<and>
     filter (is_tag ''dt'') (descendants (plug ctx n)) = filter (is_tag ''dt'') (descendants n)"
proof (induction ctx n rule: plug.induct)
  case (1 n)
  then show ?case by simp
next
  case (2 j t a left right ctx n)
  then have f: "t \<noteq> ''dt''" "list_all inert left" "list_all inert right" "list_all frame_inert ctx"
    by simp_all
  from 2(1)[OF f(4) 2(3)] have IH: "\<not> is_tag ''dt'' (plug ctx n)"
    "filter (is_tag ''dt'') (descendants (plug ctx n)) = filter (is_tag ''dt'') (descendants n)"
    by simp_all
  from f(1) IH inert_list_filter[OF f(2)] inert_list_filter[OF f(3)]
  show ?case by simp
qed

lemma find_all_listing:
  assumes "list_all frame_inert ctx" and "nm \<noteq> ''dt''"
    and "list_all inert pre" and "list_all (well_formed_entry urljoin) es"
  shows "find_all ''dt'' (plug ctx (Elem r nm at (pre @ listing_children es))) = map fst es"
proof -
  have "\<not> is_tag ''dt'' (Elem r nm at (pre @ listing_children es))"
    using assms(2) by simp
  from title_filter_plug[OF assms(1) this]
    inert_list_filter[OF assms(3)] listing_title_filter[OF assms(4)]
  show ?thesis
    by (simp add: find_all_def)
qed

text \<open>
  Claim C1. Take a listing document whose title nodes are \<open>K\<close> well-formed title/detail
  pairs, the children of one element anywhere in the document, and a cap \<open>N\<close>. The listing
  pass emits \<open>min(K, N)\<close> records, each with a non-empty title, and it stops there: the
  document it leaves still holds every pair after the first \<open>min(K, N)\<close>, none of them moved
  into a wrapper. The cap is an \<open>int\<close> in the source and counts records; a negative cap
  emits nothing, as the cap 0 does.
\<close>

theorem listing_pass_cap:
  assumes "soup = plug ctx (Elem r nm at (pre @ listing_children es))"
    and "list_all frame_inert ctx" and "nm \<noteq> ''dt''"
    and "list_all inert pre"
    and "list_all (well_formed_entry urljoin) es"
    and "distinct (ids soup)"
  shows "\<exists>recs W.
           listing_pass urljoin N soup =
             (recs,
              plug ctx (Elem r nm at (pre @ concat (map entry_rest (take (min (length es) (nat N)) es)) @
                listing_children (drop (min (length es) (nat N)) es))) # W) \<and>
           length recs = min (length es) (nat N) \<and>
           list_all (\<lambda>p. truthy (title p)) recs"
proof -
  have refs: "List.map_filter node_id (find_all ''dt'' (plug ctx (Elem r nm at (pre @ listing_children es)))) =
      title_refs es"
    unfolding find_all_listing[OF assms(2-5)] by (simp add: title_refs_def)
  have dist: "distinct (store_ids (plug ctx (Elem r nm at (pre @ listing_children es)) # []))"
    using assms(6) unfolding assms(1) by (simp add: store_ids_def)
  have n: "min (length es) (nat N) = min (length es) (nat (N - int (length ([] :: paper list))))"
    by simp
  from listing_loop_flat[OF assms(5) dist n] show ?thesis
    unfolding listing_pass_def assms(1) refs by simp
qed

text \<open>
  A page with two entries below \<open>html\<close>, \<open>body\<close> and \<open>dl\<close>, and the cap 1.
\<close>

theorem listing_pass_cap_witness:
  "listing0 = plug page_ctx (Elem 10 ''dl'' [] ([Text [CHR 0x0A]] @ listing_children [entry1, entry2])) \<and>
   list_all frame_inert page_ctx \<and> ''dl'' \<noteq> ''dt'' \<and>
   list_all inert [Text [CHR 0x0A]] \<and>
   list_all (well_formed_entry join_url) [entry1, entry2] \<and>
   distinct (ids listing0) \<and>
   (\<exists>recs W.
      listing_pass join_url 1 listing0 =
        (recs, plug page_ctx (Elem 10 ''dl'' []
                 ([Text [CHR 0x0A]] @ entry_rest entry1 @ listing_children [entry2])) # W) \<and>
      length recs = 1 \<and> list_all (\<lambda>p. truthy (title p)) recs)"
proof -
  have h1: "listing0 = plug page_ctx (Elem 10 ''dl'' [] ([Text [CHR 0x0A]] @ listing_children [entry1, entry2]))"
    by (simp add: listing0_def)
  have h2: "list_all frame_inert page_ctx"
    by code_simp
  have h3: "''dl'' \<noteq> ''dt''"
    by simp
  have h4: "list_all inert [Text [CHR 0x0A]]"
    by code_simp
  have h5: "list_all (well_formed_entry join_url) [entry1, entry2]"
    by code_simp
  have h6: "distinct (ids listing0)"
    by code_simp
  have n: "min (length [entry1, entry2]) (nat 1) = 1"
    by simp
  from listing_pass_cap[OF h1 h2 h3 h4 h5 h6, of 1]
  have "\<exists>recs W.
      listing_pass join_url 1 listing0 =
        (recs, plug page_ctx (Elem 10 ''dl'' []
                 ([Text [CHR 0x0A]] @ entry_rest entry1 @ listing_children [entry2])) # W) \<and>
      length recs = 1 \<and> list_all (\<lambda>p. truthy (title p)) recs"
    unfolding n by simp
  with h1 h2 h3 h4 h5 h6 show ?thesis by blast
qed

section \<open>The outcome of \<open>scrape_papers\<close>\<close>

text \<open>
  Claim C2, as stated, fails. A failed fetch of the listing page and a listing page without
  a single record give the caller the same result, the empty list, and leave the scraper
  in the same state.
\<close>

theorem scrape_papers_outcome_counterexample:
  "scrape_papers join_url fetch_fail scraper0 () = Inr ([], scraper0, ()) \<and>
   scrape_papers join_url fetch_empty scraper0 () = Inr ([], scraper0, ())"
  by code_simp

text \<open>
  Claim C2, amended. \<open>scrape_papers\<close> returns the empty list both when the fetch of the
  listing page fails and when the listing pass yields no record. It leaves the scraper as
  it was in the first case and with an empty list of papers in the second; on a scraper
  that holds no papers yet, as \<open>main\<close> makes it, the two outcomes are the same and the
  caller cannot tell them apart.
\<close>

theorem scrape_papers_empty_outcomes:
  "(fst (fetch_page w (base_url self)) = None \<longrightarrow>
      (\<exists>w'. scrape_papers urljoin fetch_page self w = Inr ([], self, w'))) \<and>
   (\<forall>soup. fst (fetch_page w (base_url self)) = Some soup \<and>
           fst (listing_pass urljoin (max_papers self) soup) = [] \<longrightarrow>
      (\<exists>w'. scrape_papers urljoin fetch_page self w = Inr ([], self\<lparr>papers := []\<rparr>, w')))"
  by (cases "fetch_page w (base_url self)") (auto simp: scrape_papers_def)

theorem scrape_papers_empty_outcomes_witness:
  "fst (fetch_fail () (base_url scraper0)) = None \<and>
   (\<exists>w'. scrape_papers join_url fetch_fail scraper0 () = Inr ([], scraper0, w')) \<and>
   fst (fetch_empty () (base_url scraper0)) = Some empty_page \<and>
   fst (listing_pass join_url (max_papers scraper0) empty_page) = [] \<and>
   (\<exists>w'. scrape_papers join_url fetch_empty scraper0 () = Inr ([], scraper0, w'))"
proof -
  have h0: "scraper0\<lparr>papers := []\<rparr> = scraper0"
    by (simp add: scraper0_def init_scraper_def)
  have h1: "fst (fetch_fail () (base_url scraper0)) = None"
    by (simp add: fetch_fail_def)
  have h2: "fst (fetch_empty () (base_url scraper0)) = Some empty_page"
    by (simp add: fetch_empty_def)
  have h3: "fst (listing_pass join_url (max_papers scraper0) empty_page) = []"
    by code_simp
  note t1 = scrape_papers_empty_outcomes[where fetch_page = fetch_fail and w = "()"
      and urljoin = join_url and self = scraper0]
  note t2 = scrape_papers_empty_outcomes[where fetch_page = fetch_empty and w = "()"
      and urljoin = join_url and self = scraper0]
  have a: "\<exists>w'. scrape_papers join_url fetch_fail scraper0 () = Inr ([], scraper0, w')"
    by (rule conjunct1[OF t1, THEN mp, OF h1])
  have b: "\<exists>w'. scrape_papers join_url fetch_empty scraper0 () = Inr ([], scraper0, w')"
    using conjunct2[OF t2, THEN spec, THEN mp, OF conjI[OF h2 h3]] unfolding h0 .
  show ?thesis
    by (intro conjI h1 h2 h3 a b)
qed

section \<open>Export and re-parsing\<close>

subsection \<open>The reader on the lines of a written file\<close>








lemma chars_distinct [simp]:
  "DQ \<noteq> LF" "DQ \<noteq> CR" "CR \<noteq> LF" "LF \<noteq> DQ" "CR \<noteq> DQ" "LF \<noteq> CR"
  "CHR '','' \<noteq> LF" "CHR '','' \<noteq> CR" "CHR '','' \<noteq> DQ"
  "LF \<noteq> CHR '',''" "CR \<noteq> CHR '',''" "DQ \<noteq> CHR '',''"
  by (simp_all add: DQ_def CR_def LF_def)











subsection \<open>Joining and splitting the authors\<close>







end
